theory Spec2Isabelle
  imports Main "HOL-Library.Sublist"
begin

section \<open>Registry (registry-pattern.ts)\<close>

text \<open>
  Console output is the list of lines printed so far. A call of an \<open>async\<close> method is
  modelled by its completion: \<open>Inr ()\<close> when the promise resolves, \<open>Inl e\<close> when it
  rejects with \<open>e\<close>, together with the console after the call.
\<close>

type_synonym console = "string list"

datatype error =
    TypeError string  \<comment> \<open>raised by the runtime: calling a property that is not a function\<close>
  | Rejected string   \<comment> \<open>raised by a handler's own code\<close>

text \<open>
  \<^verbatim>\<open>interface Animal { key: string; speak(): Promise<void>; }\<close>
  An implementation is free in what \<open>speak\<close> prints and in whether it resolves.
\<close>

record animal =
  key :: string
  speak :: "console \<Rightarrow> (error + unit) \<times> console"

definition Dog :: animal where
  "Dog = \<lparr>key = ''dog'', speak = (\<lambda>c. (Inr (), c @ [''gau gau'']))\<rparr>"

definition Cat :: animal where
  "Cat = \<lparr>key = ''cat'', speak = (\<lambda>c. (Inr (), c @ [''meo meo'']))\<rparr>"

text \<open>
  \<^verbatim>\<open>handlers: Record<string, Animal> = {}\<close> is a plain object: besides its own
  properties it has a prototype, initially \<open>Object.prototype\<close>. Reading \<open>handlers[k]\<close>
  walks the prototype chain; writing \<open>handlers[k] = a\<close> creates or replaces an own
  property, except for the key \<open>__proto__\<close>, an accessor of \<open>Object.prototype\<close> whose
  setter replaces the prototype of the object by \<open>a\<close>.
\<close>

record object =
  own :: "string \<rightharpoonup> animal"
  proto :: "animal option"  \<comment> \<open>\<open>None\<close>: the prototype is \<open>Object.prototype\<close>\<close>

record registry =
  handlers :: object

text \<open>The properties every plain object inherits from \<open>Object.prototype\<close>.\<close>

definition object_prototype_names :: "string list" where
  "object_prototype_names =
     [''constructor'', ''hasOwnProperty'', ''isPrototypeOf'', ''propertyIsEnumerable'',
      ''toLocaleString'', ''toString'', ''valueOf'', ''__defineGetter__'',
      ''__defineSetter__'', ''__lookupGetter__'', ''__lookupSetter__'', ''__proto__'']"

text \<open>
  The members an \<open>Animal\<close> object itself brings into the chain when it has become the
  prototype: those the interface declares.
\<close>

definition animal_member_names :: "string list" where
  "animal_member_names = [''key'', ''speak'']"

text \<open>
  What \<open>this.handlers[key]\<close> evaluates to: \<open>undefined\<close>, an \<open>Animal\<close>, or some other
  value found on the prototype chain (a built-in function, \<open>Object.prototype\<close> itself,
  a member of the animal that is the prototype). The last kind is truthy and has no
  \<open>speak\<close> method.
\<close>

datatype property = Undefined | Handler animal | Foreign

definition get_property :: "object \<Rightarrow> string \<Rightarrow> property" where
  "get_property obj k =
     (case own obj k of
        Some a \<Rightarrow> Handler a
      | None \<Rightarrow>
          if k = ''__proto__'' then
            (case proto obj of Some a \<Rightarrow> Handler a | None \<Rightarrow> Foreign)
          else if k \<in> set object_prototype_names then Foreign
          else if proto obj \<noteq> None \<and> k \<in> set animal_member_names then Foreign
          else Undefined)"

definition set_property :: "object \<Rightarrow> string \<Rightarrow> animal \<Rightarrow> object" where
  "set_property obj k a =
     (if k = ''__proto__'' then obj\<lparr>proto := Some a\<rparr>
      else obj\<lparr>own := (own obj)(k \<mapsto> a)\<rparr>)"

text \<open>
  \<^verbatim>\<open>constructor(...animals: Animal[]) {
    animals.forEach(a => (this.handlers[a.key] = a));
  }\<close>
\<close>

definition empty_object :: object where
  "empty_object = \<lparr>own = Map.empty, proto = None\<rparr>"

definition register_animal :: "registry \<Rightarrow> animal \<Rightarrow> registry" where
  "register_animal r a = r\<lparr>handlers := set_property (handlers r) (key a) a\<rparr>"

definition Registry :: "animal list \<Rightarrow> registry" where
  "Registry animals = foldl register_animal \<lparr>handlers = empty_object\<rparr> animals"

text \<open>
  \<^verbatim>\<open>async speak(key: string): Promise<void> {
    const handler = this.handlers[key];
    if (!handler) {
      console.log('handler not found!');
    } else {
      await handler.speak();
    }
  }\<close>
  A truthy value without a \<open>speak\<close> method makes \<open>handler.speak()\<close> raise a
  \<open>TypeError\<close>, which rejects the promise of the \<open>async\<close> method.
\<close>

definition Registry_speak :: "registry \<Rightarrow> string \<Rightarrow> console \<Rightarrow> (error + unit) \<times> console" where
  "Registry_speak r k c =
     (case get_property (handlers r) k of
        Undefined \<Rightarrow> (Inr (), c @ [''handler not found!''])
      | Handler a \<Rightarrow> speak a c
      | Foreign \<Rightarrow> (Inl (TypeError ''handler.speak is not a function''), c))"

text \<open>
  Modelled from the spec: the class \<open>Registry\<close> of registry-pattern.ts has no
  \<open>unregister\<close>. The spec (4.1) gives "removes the mapping if present; no-op (not an
  error) if absent", which is the \<^verbatim>\<open>delete this.handlers[key]\<close> of the extension
  sketched in the repository's write-up of the pattern: the own property goes, the
  prototype chain stays.
\<close>

definition unregister :: "registry \<Rightarrow> string \<Rightarrow> registry" where
  "unregister r k = r\<lparr>handlers := (handlers r)\<lparr>own := (own (handlers r))(k := None)\<rparr>\<rparr>"

section \<open>Observer (NotifierSubject)\<close>

text \<open>
  Objects are compared by identity (\<open>includes\<close>, \<open>!==\<close>), so a listener is a reference;
  what the object behind a reference does in \<open>update\<close> is looked up in an object table.
\<close>

type_synonym ref = nat

record data =
  content :: string

text \<open>
  What an \<open>update\<close> can do besides printing: call back into the subject it is
  registered with, and throw. The class \<open>User\<close> does neither; the interface
  \<open>Observer\<close> allows any implementation. A broadcast started from inside an \<open>update\<close>
  is not among the actions modelled.
\<close>

datatype action = Subscribe ref | Unsubscribe ref | Throw string

datatype observer =
    User string           \<comment> \<open>\<open>new User(name)\<close>\<close>
  | Other "action list"   \<comment> \<open>another implementation of \<open>Observer\<close>: \<open>update\<close> does this\<close>

text \<open>
  The invocations of \<open>update\<close>, in the order they begin and end: an \<open>update\<close> ends by
  returning or by raising.
\<close>

datatype event = Enter ref string data | Return ref | Abort ref string

text \<open>How a call ends, with the state it leaves: it returns, or it raises.\<close>

datatype 'a outcome = Returned 'a | Raised string 'a

fun state_of :: "'a outcome \<Rightarrow> 'a" where
  "state_of (Returned s) = s"
| "state_of (Raised e s) = s"

fun returned :: "'a outcome \<Rightarrow> bool" where
  "returned (Returned s) = True"
| "returned (Raised e s) = False"

text \<open>
  \<open>this.observers\<close> holds a reference to an array. \<open>push\<close> changes the array in place;
  \<open>filter\<close> allocates a new array. The store maps the address of an array to its
  contents. Besides the subject, the state holds the console and the trace of the calls
  of \<open>update\<close>; the trace is no field of the class, it is what the statements about
  deliveries speak of.
\<close>

record subject =
  arrays :: "nat \<Rightarrow> ref list"
  fresh :: nat                  \<comment> \<open>the next unused address\<close>
  observers :: nat              \<comment> \<open>the field \<open>this.observers\<close>\<close>
  printed :: console
  trace :: "event list"

definition NotifierSubject :: subject where
  "NotifierSubject = \<lparr>arrays = (\<lambda>_. []), fresh = 1, observers = 0, printed = [], trace = []\<rparr>"

definition subscribers :: "subject \<Rightarrow> ref list" where
  "subscribers s = arrays s (observers s)"

text \<open>
  \<^verbatim>\<open>subscribe(observer: Observer): void {
    if (!this.observers.includes(observer)) {
      this.observers.push(observer);
    }
  }\<close>
\<close>

definition subscribe :: "ref \<Rightarrow> subject \<Rightarrow> subject" where
  "subscribe r s =
     (if r \<in> set (arrays s (observers s)) then s
      else s\<lparr>arrays := (arrays s)(observers s := arrays s (observers s) @ [r])\<rparr>)"

text \<open>
  \<^verbatim>\<open>unsubscribe(observer: Observer): void {
    this.observers = this.observers.filter(o => o !== observer);
  }\<close>
\<close>

definition unsubscribe :: "ref \<Rightarrow> subject \<Rightarrow> subject" where
  "unsubscribe r s =
     s\<lparr>arrays := (arrays s)(fresh s := filter (\<lambda>x. x \<noteq> r) (arrays s (observers s))),
       observers := fresh s,
       fresh := Suc (fresh s)\<rparr>"

text \<open>
  \<^verbatim>\<open>update(event: string, data: { content: string }): void {
    console.log(`[User] Event: ${event}, To: ${this.name}, Content: ${data.content}`);
  }\<close>
  The \<open>update\<close> of another implementation does its actions in order; a \<open>throw\<close> ends
  it, and what it has done to the subject before stays done. The result is the state
  and the exception, if one was raised.
\<close>

definition user_line :: "string \<Rightarrow> string \<Rightarrow> data \<Rightarrow> string" where
  "user_line ev name d =
     ''[User] Event: '' @ ev @ '', To: '' @ name @ '', Content: '' @ content d"

fun perform :: "action list \<Rightarrow> subject \<Rightarrow> subject \<times> string option" where
  "perform [] s = (s, None)"
| "perform (Subscribe r # acts) s = perform acts (subscribe r s)"
| "perform (Unsubscribe r # acts) s = perform acts (unsubscribe r s)"
| "perform (Throw e # acts) s = (s, Some e)"

definition update_body ::
  "observer \<Rightarrow> string \<Rightarrow> data \<Rightarrow> subject \<Rightarrow> subject \<times> string option" where
  "update_body ob ev d s =
     (case ob of
        User name \<Rightarrow> (s\<lparr>printed := printed s @ [user_line ev name d]\<rparr>, None)
      | Other acts \<Rightarrow> perform acts s)"

definition update ::
  "(ref \<Rightarrow> observer) \<Rightarrow> ref \<Rightarrow> string \<Rightarrow> data \<Rightarrow> subject \<Rightarrow> subject \<times> string option" where
  "update objs r ev d s =
     (let p = update_body (objs r) ev d (s\<lparr>trace := trace s @ [Enter r ev d]\<rparr>);
          ending = (case snd p of None \<Rightarrow> Return r | Some e \<Rightarrow> Abort r e)
      in ((fst p)\<lparr>trace := trace (fst p) @ [ending]\<rparr>, snd p))"

text \<open>
  \<^verbatim>\<open>notify(event: string, data: { content: string }): void {
    for (const observer of this.observers) {
      observer.update(event, data);
    }
  }\<close>
  \<open>this.observers\<close> is evaluated once, to the address \<open>a\<close>. The array iterator keeps
  an index \<open>i\<close> into that array and reads its length and its element at every step,
  so it sees what \<open>push\<close> has added to that array in between. There is no \<open>try\<close>: an
  \<open>update\<close> that raises ends the loop, and \<open>notify\<close> raises what it raised. Listeners
  that keep subscribing new listeners keep the loop running: it takes fuel, and \<open>None\<close>
  is the loop that has not ended within it.
\<close>

fun notify_loop ::
  "(ref \<Rightarrow> observer) \<Rightarrow> nat \<Rightarrow> nat \<Rightarrow> nat \<Rightarrow> string \<Rightarrow> data \<Rightarrow> subject \<Rightarrow>
   subject outcome option" where
  "notify_loop objs 0 a i ev d s = None"
| "notify_loop objs (Suc n) a i ev d s =
     (if i < length (arrays s a)
      then (case snd (update objs (arrays s a ! i) ev d s) of
              None \<Rightarrow> notify_loop objs n a (Suc i) ev d (fst (update objs (arrays s a ! i) ev d s))
            | Some e \<Rightarrow> Some (Raised e (fst (update objs (arrays s a ! i) ev d s))))
      else Some (Returned s))"

definition notify ::
  "(ref \<Rightarrow> observer) \<Rightarrow> nat \<Rightarrow> string \<Rightarrow> data \<Rightarrow> subject \<Rightarrow> subject outcome option" where
  "notify objs n ev d s = notify_loop objs n (observers s) 0 ev d s"

text \<open>The trace of one broadcast that reaches exactly the listeners \<open>rs\<close>, in order.\<close>

definition deliveries :: "string \<Rightarrow> data \<Rightarrow> ref list \<Rightarrow> event list" where
  "deliveries ev d rs = concat (map (\<lambda>r. [Enter r ev d, Return r]) rs)"

text \<open>The listeners whose \<open>update\<close> a trace shows as entered, in order.\<close>

fun recipients :: "event list \<Rightarrow> ref list" where
  "recipients [] = []"
| "recipients (Enter r ev d # es) = r # recipients es"
| "recipients (Return r # es) = recipients es"
| "recipients (Abort r e # es) = recipients es"

text \<open>
  The listeners one call of \<open>notify\<close> reaches, in order, when it ends, by returning or
  by raising.
\<close>

definition broadcast_recipients ::
  "(ref \<Rightarrow> observer) \<Rightarrow> nat \<Rightarrow> string \<Rightarrow> data \<Rightarrow> subject \<Rightarrow> ref list option" where
  "broadcast_recipients objs n ev d s =
     map_option (\<lambda>out. recipients (drop (length (trace s)) (trace (state_of out))))
       (notify objs n ev d s)"

text \<open>
  The broadcast as the spec words it (4.2): the recipients are "captured as a stable
  snapshot taken at the start of that call". To be compared with \<open>notify\<close> where no
  \<open>update\<close> raises; what an \<open>update\<close> raises is not looked at here.
\<close>

definition snapshot_notify :: "(ref \<Rightarrow> observer) \<Rightarrow> string \<Rightarrow> data \<Rightarrow> subject \<Rightarrow> subject" where
  "snapshot_notify objs ev d s = fold (\<lambda>r t. fst (update objs r ev d t)) (subscribers s) s"

text \<open>
  Several broadcasts, one after the other, by a caller that goes on when a broadcast
  has raised.
\<close>

fun notify_all ::
  "(ref \<Rightarrow> observer) \<Rightarrow> nat \<Rightarrow> (string \<times> data) list \<Rightarrow> subject \<Rightarrow> subject option" where
  "notify_all objs n [] s = Some s"
| "notify_all objs n (e # es) s =
     (case notify objs n (fst e) (snd e) s of
        None \<Rightarrow> None
      | Some out \<Rightarrow> notify_all objs n es (state_of out))"

text \<open>
  The listeners that an \<open>update\<close> subscribes and unsubscribes, whether it raises, and
  the quiet \<open>update\<close>: one that subscribes nobody and does not raise.
\<close>

fun subscribed_in :: "action list \<Rightarrow> ref list" where
  "subscribed_in [] = []"
| "subscribed_in (Subscribe r # acts) = r # subscribed_in acts"
| "subscribed_in (Unsubscribe r # acts) = subscribed_in acts"
| "subscribed_in (Throw e # acts) = subscribed_in acts"

fun unsubscribed_in :: "action list \<Rightarrow> ref list" where
  "unsubscribed_in [] = []"
| "unsubscribed_in (Subscribe r # acts) = unsubscribed_in acts"
| "unsubscribed_in (Unsubscribe r # acts) = r # unsubscribed_in acts"
| "unsubscribed_in (Throw e # acts) = unsubscribed_in acts"


fun unsubscribes_only :: "action list \<Rightarrow> bool" where
  "unsubscribes_only [] = True"
| "unsubscribes_only (Subscribe r # acts) = False"
| "unsubscribes_only (Unsubscribe r # acts) = unsubscribes_only acts"
| "unsubscribes_only (Throw e # acts) = False"

fun subscribed_by :: "observer \<Rightarrow> ref list" where
  "subscribed_by (User name) = []"
| "subscribed_by (Other acts) = subscribed_in acts"

fun unsubscribed_by :: "observer \<Rightarrow> ref list" where
  "unsubscribed_by (User name) = []"
| "unsubscribed_by (Other acts) = unsubscribed_in acts"


fun quiet :: "observer \<Rightarrow> bool" where
  "quiet (User name) = True"
| "quiet (Other acts) = unsubscribes_only acts"

definition invited :: "(ref \<Rightarrow> observer) \<Rightarrow> ref list \<Rightarrow> ref list" where
  "invited objs rs = concat (map (\<lambda>r. subscribed_by (objs r)) rs)"

definition cancelled :: "(ref \<Rightarrow> observer) \<Rightarrow> ref list \<Rightarrow> ref list" where
  "cancelled objs rs = concat (map (\<lambda>r. unsubscribed_by (objs r)) rs)"

text \<open>Array addresses in use lie below \<open>fresh\<close>.\<close>

definition allocated :: "subject \<Rightarrow> bool" where
  "allocated s = (observers s < fresh s)"

text \<open>
  From \<open>s\<close> to \<open>s'\<close> the array at address \<open>a\<close> has only been appended to, and stays
  free of duplicates if it was; \<open>added\<close> is what has been appended.
\<close>

definition grows :: "nat \<Rightarrow> subject \<Rightarrow> subject \<Rightarrow> bool" where
  "grows a s s' =
     (a < fresh s' \<and> allocated s' \<and> prefix (arrays s a) (arrays s' a) \<and>
      (distinct (arrays s a) \<longrightarrow> distinct (arrays s' a)))"

definition added :: "nat \<Rightarrow> subject \<Rightarrow> subject \<Rightarrow> ref list" where
  "added a s s' = drop (length (arrays s a)) (arrays s' a)"

text \<open>
  Two subjects that differ only in where their arrays lie: the array at \<open>a\<close> in one
  is the array at \<open>b\<close> in the other.
\<close>

definition same_view :: "nat \<Rightarrow> nat \<Rightarrow> subject \<Rightarrow> subject \<Rightarrow> bool" where
  "same_view a b s t =
     (arrays s a = arrays t b \<and> (a = observers s) = (b = observers t) \<and>
      a < fresh s \<and> b < fresh t \<and> allocated s \<and> allocated t \<and>
      subscribers s = subscribers t \<and> printed s = printed t \<and> trace s = trace t)"

text \<open>What a caller can see of a subject: who is subscribed, and what has happened.\<close>

definition observable :: "subject \<Rightarrow> ref list \<times> console \<times> event list" where
  "observable s = (subscribers s, printed s, trace s)"

text \<open>The registry never stores an own property named \<open>__proto__\<close>.\<close>

definition no_own_proto :: "registry \<Rightarrow> bool" where
  "no_own_proto r = (own (handlers r) ''__proto__'' = None)"

subsection \<open>Objects of the scenarios\<close>

text \<open>
  \<^verbatim>\<open>const user1 = new User('Dat'); const user2 = new User('Cuong');\<close>
  and a third listener.
\<close>

definition user1 :: ref where "user1 = 0"

definition user2 :: ref where "user2 = 1"

definition user3 :: ref where "user3 = 2"

definition users :: "ref \<Rightarrow> observer" where
  "users r = (if r = user1 then User ''Dat'' else User ''Cuong'')"

text \<open>A listener that subscribes \<open>user2\<close> when it is notified.\<close>

definition inviting :: "ref \<Rightarrow> observer" where
  "inviting r = (if r = user1 then Other [Subscribe user2] else User ''Cuong'')"

text \<open>A listener that unsubscribes \<open>user2\<close> when it is notified.\<close>

definition dismissing :: "ref \<Rightarrow> observer" where
  "dismissing r = (if r = user1 then Other [Unsubscribe user2] else User ''Cuong'')"

text \<open>A listener that throws when it is notified.\<close>

definition failing :: "ref \<Rightarrow> observer" where
  "failing r = (if r = user1 then Other [Throw ''update failed''] else User ''Cuong'')"

text \<open>Handlers of the scenarios: a second dog, and a handler whose \<open>speak\<close> rejects.\<close>

definition Puppy :: animal where
  "Puppy = \<lparr>key = ''dog'', speak = (\<lambda>c. (Inr (), c @ [''woof'']))\<rparr>"

definition Mute :: animal where
  "Mute = \<lparr>key = ''fish'', speak = (\<lambda>c. (Inl (Rejected ''no voice''), c @ [''...'']))\<rparr>"

section \<open>Properties of the registry\<close>

subsection \<open>Lookup after construction\<close>

lemma no_own_proto_register: "no_own_proto r \<Longrightarrow> no_own_proto (register_animal r a)"
  by (simp add: no_own_proto_def register_animal_def set_property_def)

lemma no_own_proto_foldl: "no_own_proto r \<Longrightarrow> no_own_proto (foldl register_animal r as)"
  by (induction as arbitrary: r) (simp_all add: no_own_proto_register)

lemma no_own_proto_Registry: "no_own_proto (Registry as)"
  unfolding Registry_def
  by (rule no_own_proto_foldl) (simp add: no_own_proto_def empty_object_def)

lemma get_registered:
  "no_own_proto r \<Longrightarrow> get_property (handlers (register_animal r a)) (key a) = Handler a"
  by (simp add: no_own_proto_def register_animal_def set_property_def get_property_def)

lemma get_other:
  "get_property (handlers r) k = Handler h \<Longrightarrow> key a \<noteq> k \<Longrightarrow>
   get_property (handlers (register_animal r a)) k = Handler h"
  by (auto simp: register_animal_def set_property_def get_property_def
      split: option.splits if_splits)

lemma get_others:
  "get_property (handlers r) k = Handler h \<Longrightarrow> \<forall>b \<in> set bs. key b \<noteq> k \<Longrightarrow>
   get_property (handlers (foldl register_animal r bs)) k = Handler h"
  by (induction bs arbitrary: r) (simp_all add: get_other)

lemma get_last_registered:
  assumes later: "\<forall>b \<in> set post. key b \<noteq> key h"
  shows "get_property (handlers (Registry (pre @ h # post))) (key h) = Handler h"
proof -
  have "get_property (handlers (register_animal (Registry pre) h)) (key h) = Handler h"
    by (rule get_registered) (rule no_own_proto_Registry)
  then have "get_property
      (handlers (foldl register_animal (register_animal (Registry pre) h) post)) (key h) =
      Handler h"
    using later by (rule get_others)
  then show ?thesis
    by (simp add: Registry_def)
qed

lemma speak_Handler:
  "get_property (handlers r) k = Handler h \<Longrightarrow> Registry_speak r k c = speak h c"
  by (simp add: Registry_speak_def)

lemma speak_last_registered:
  "\<forall>b \<in> set post. key b \<noteq> key h \<Longrightarrow>
   Registry_speak (Registry (pre @ h # post)) (key h) c = speak h c"
  by (simp add: speak_Handler get_last_registered)

text \<open>
  A key that is neither registered nor the name of a property that a plain object
  inherits is reported as not found, and no handler runs.
\<close>

lemma speak_plain_absent_key:
  "own (handlers r) k = None \<Longrightarrow> proto (handlers r) = None \<Longrightarrow>
   k \<notin> set object_prototype_names \<Longrightarrow>
   Registry_speak r k c = (Inr (), c @ [''handler not found!''])"
  by (auto simp: Registry_speak_def get_property_def object_prototype_names_def)

lemmas scenario_defs =
  Registry_def register_animal_def set_property_def empty_object_def Dog_def Cat_def
  Puppy_def Mute_def Registry_speak_def get_property_def object_prototype_names_def
  animal_member_names_def unregister_def

lemma speak_bird:
  "Registry_speak (Registry [Dog, Cat]) ''bird'' [] = (Inr (), [''handler not found!''])"
  by (simp add: scenario_defs)

subsection \<open>Unregistering\<close>

lemma unregister_absent: "own (handlers r) k = None \<Longrightarrow> unregister r k = r"
  by (simp add: unregister_def fun_upd_idem)

lemma unregister_twice: "unregister (unregister r k) k = unregister r k"
  by (simp add: unregister_def)

lemma unregister_own: "own (handlers (unregister r k)) k = None"
  by (simp add: unregister_def)

lemma unregister_plain_key:
  "proto (handlers r) = None \<Longrightarrow> k \<notin> set object_prototype_names \<Longrightarrow>
   Registry_speak (unregister r k) k c = (Inr (), c @ [''handler not found!''])"
  by (rule speak_plain_absent_key) (simp_all add: unregister_def)

subsection \<open>The claims about the registry\<close>

text \<open>
  C3. For every key that is not present in the registry's mapping, \<open>speak\<close> logs
  \<open>handler not found!\<close>, returns normally and invokes no handler. The code misses the
  keys that a plain object inherits: with \<open>dog\<close> and \<open>cat\<close> registered, the key
  \<open>constructor\<close> is not in the mapping, and \<open>speak\<close> logs nothing and rejects with a
  \<open>TypeError\<close>.
\<close>

theorem speak_inherited_key_rejects:
  "own (handlers (Registry [Dog, Cat])) ''constructor'' = None \<and>
   Registry_speak (Registry [Dog, Cat]) ''constructor'' [] =
     (Inl (TypeError ''handler.speak is not a function''), [])"
  by (simp add: scenario_defs)

text \<open>
  C5. For distinct keys, after registering \<open>h1\<close> and then \<open>h2\<close>, invoking the key of
  \<open>h1\<close> does what \<open>h1\<close>'s own \<open>speak\<close> does and nothing else (and so for \<open>h2\<close>); with
  \<open>dog\<close> and \<open>cat\<close> registered, invoking \<open>cat\<close> prints exactly \<open>meo meo\<close>.
\<close>

theorem speak_dispatches_by_key:
  assumes "key h1 \<noteq> key h2"
  shows "Registry_speak (Registry (pre @ [h1, h2])) (key h1) c = speak h1 c \<and>
         Registry_speak (Registry (pre @ [h1, h2])) (key h2) c = speak h2 c \<and>
         Registry_speak (Registry [Dog, Cat]) ''cat'' [] = (Inr (), [''meo meo''])"
proof -
  have "Registry_speak (Registry (pre @ h1 # [h2])) (key h1) c = speak h1 c"
    using assms by (intro speak_last_registered) simp
  moreover have "Registry_speak (Registry ((pre @ [h1]) @ h2 # [])) (key h2) c = speak h2 c"
    by (intro speak_last_registered) simp
  moreover have "Registry_speak (Registry [Dog, Cat]) ''cat'' [] = (Inr (), [''meo meo''])"
    by (simp add: scenario_defs)
  ultimately show ?thesis by simp
qed

theorem speak_dispatches_by_key_witness:
  "key Dog \<noteq> key Cat \<and>
   Registry_speak (Registry ([] @ [Dog, Cat])) (key Dog) [] = (Inr (), [''gau gau'']) \<and>
   Registry_speak (Registry ([] @ [Dog, Cat])) (key Cat) [] = (Inr (), [''meo meo''])"
proof -
  have h: "key Dog \<noteq> key Cat"
    by (simp add: Dog_def Cat_def)
  have "speak Dog [] = (Inr (), [''gau gau''])" "speak Cat [] = (Inr (), [''meo meo''])"
    by (simp_all add: Dog_def Cat_def)
  then show ?thesis
    using h speak_dispatches_by_key [OF h, of "[]" "[]"] by simp
qed

text \<open>
  C6. The constructor registers every handler it is given, without a check for a key
  already in use: of two handlers with the same key the later one replaces the earlier
  one, and invoking the key runs the later handler.
\<close>

theorem later_duplicate_overwrites:
  assumes "key a2 = key a1" and "\<forall>b \<in> set post. key b \<noteq> key a2"
  shows "Registry_speak (Registry (pre @ a1 # mid @ a2 # post)) (key a1) c = speak a2 c"
proof -
  have "Registry_speak (Registry ((pre @ a1 # mid) @ a2 # post)) (key a2) c = speak a2 c"
    using assms(2) by (rule speak_last_registered)
  then show ?thesis
    using assms(1) by simp
qed

theorem later_duplicate_overwrites_witness:
  "key Puppy = key Dog \<and>
   Registry_speak (Registry ([] @ Dog # [Cat] @ Puppy # [])) (key Dog) [] =
     (Inr (), [''woof''])"
proof -
  have h: "key Puppy = key Dog"
    by (simp add: Dog_def Puppy_def)
  have none: "\<forall>b \<in> set []. key b \<noteq> key Puppy"
    by simp
  have "speak Puppy [] = (Inr (), [''woof''])"
    by (simp add: Puppy_def)
  then show ?thesis
    using h later_duplicate_overwrites [OF h none, of "[]" "[Cat]" "[]"] by simp
qed

text \<open>
  C8. For a key registered to a handler, \<open>speak\<close> of the registry is the handler's own
  \<open>speak\<close> (which takes no argument): the handler's result or failure is the result or
  failure of the call, and the console holds what the handler printed and nothing more.
\<close>

theorem speak_forwards_to_handler:
  assumes "get_property (handlers (Registry animals)) k = Handler h"
  shows "fst (Registry_speak (Registry animals) k c) = fst (speak h c) \<and>
         snd (Registry_speak (Registry animals) k c) = snd (speak h c)"
  using assms by (simp add: speak_Handler)

theorem speak_forwards_to_handler_witness:
  "get_property (handlers (Registry [Dog, Mute])) ''fish'' = Handler Mute \<and>
   fst (Registry_speak (Registry [Dog, Mute]) ''fish'' []) = Inl (Rejected ''no voice'') \<and>
   snd (Registry_speak (Registry [Dog, Mute]) ''fish'' []) = [''...'']"
proof -
  have h: "get_property (handlers (Registry [Dog, Mute])) ''fish'' = Handler Mute"
    using get_last_registered [of "[]" Mute "[Dog]"] by (simp add: Mute_def)
  have "speak Mute [] = (Inl (Rejected ''no voice''), [''...''])"
    by (simp add: Mute_def)
  then show ?thesis
    using h speak_forwards_to_handler [OF h, of "[]"] by simp
qed

text \<open>
  C9. Unregistering removes the mapping of a key, is a no-op for an absent key, and
  after it invoking the key reports that the handler is not found. With the
  \<open>unregister\<close> of the spec, \<open>speak\<close> of the code misses the inherited keys here too:
  after unregistering \<open>toString\<close>, invoking it rejects with a \<open>TypeError\<close>.
\<close>

theorem unregister_inherited_key_rejects:
  "unregister (Registry [Dog, Cat]) ''toString'' = Registry [Dog, Cat] \<and>
   Registry_speak (unregister (Registry [Dog, Cat]) ''toString'') ''toString'' [] =
     (Inl (TypeError ''handler.speak is not a function''), [])"
  by (simp add: scenario_defs)

section \<open>Properties of the subject\<close>

subsection \<open>The subscriber sequence\<close>

lemma subscribers_subscribe:
  "subscribers (subscribe r s) =
     (if r \<in> set (subscribers s) then subscribers s else subscribers s @ [r])"
  by (simp add: subscribers_def subscribe_def)

lemma subscribers_unsubscribe:
  "subscribers (unsubscribe r s) = filter (\<lambda>x. x \<noteq> r) (subscribers s)"
  by (simp add: subscribers_def unsubscribe_def)

lemma subscribe_twice: "subscribe r (subscribe r s) = subscribe r s"
  by (simp add: subscribe_def)

lemma subscribe_unsubscribe_subscribers:
  "r \<notin> set (subscribers s) \<Longrightarrow> subscribers (unsubscribe r (subscribe r s)) = subscribers s"
  by (auto simp: subscribers_subscribe subscribers_unsubscribe filter_id_conv)

lemma subscribe_allocated: "allocated s \<Longrightarrow> allocated (subscribe r s)"
  by (simp add: subscribe_def allocated_def)

lemma unsubscribe_allocated: "allocated (unsubscribe r s)"
  by (simp add: unsubscribe_def allocated_def)

lemma subscribe_trace: "trace (subscribe r s) = trace s"
  by (simp add: subscribe_def)

lemma unsubscribe_trace: "trace (unsubscribe r s) = trace s"
  by (simp add: unsubscribe_def)




lemma NotifierSubject_allocated: "allocated NotifierSubject"
  by (simp add: allocated_def NotifierSubject_def)

lemma NotifierSubject_subscribers: "subscribers NotifierSubject = []"
  by (simp add: subscribers_def NotifierSubject_def)


subsection \<open>The trace of an update\<close>

lemma perform_trace: "trace (fst (perform acts s)) = trace s"
  by (induction acts s rule: perform.induct) (simp_all add: subscribe_trace unsubscribe_trace)

lemma update_body_trace: "trace (fst (update_body ob ev d s)) = trace s"
  by (cases ob) (simp_all add: update_body_def perform_trace)

lemma update_trace_returned:
  "snd (update objs r ev d s) = None \<Longrightarrow>
   trace (fst (update objs r ev d s)) = trace s @ [Enter r ev d, Return r]"
  by (simp add: update_def Let_def update_body_trace)

lemma update_trace_raised:
  "snd (update objs r ev d s) = Some e \<Longrightarrow>
   trace (fst (update objs r ev d s)) = trace s @ [Enter r ev d, Abort r e]"
  by (simp add: update_def Let_def update_body_trace)

lemma deliveries_Nil: "deliveries ev d [] = []"
  by (simp add: deliveries_def)

lemma deliveries_Cons: "deliveries ev d (r # rs) = Enter r ev d # Return r # deliveries ev d rs"
  by (simp add: deliveries_def)

lemma recipients_append: "recipients (es @ es') = recipients es @ recipients es'"
  by (induction es rule: recipients.induct) simp_all

lemma recipients_deliveries: "recipients (deliveries ev d rs) = rs"
  by (induction rs) (simp_all add: deliveries_Nil deliveries_Cons)

lemma invited_Nil: "invited objs [] = []"
  by (simp add: invited_def)

lemma invited_Cons: "invited objs (r # rs) = subscribed_by (objs r) @ invited objs rs"
  by (simp add: invited_def)

subsection \<open>The array under iteration only grows\<close>

lemma grows_refl: "a < fresh s \<Longrightarrow> allocated s \<Longrightarrow> grows a s s"
  by (simp add: grows_def)

lemma grows_trans: "grows a s s1 \<Longrightarrow> grows a s1 s2 \<Longrightarrow> grows a s s2"
  by (auto simp: grows_def intro: prefix_order.trans)

lemma subscribe_grows: "a < fresh s \<Longrightarrow> allocated s \<Longrightarrow> grows a s (subscribe r s)"
  by (auto simp: grows_def allocated_def subscribe_def)

lemma unsubscribe_grows: "a < fresh s \<Longrightarrow> allocated s \<Longrightarrow> grows a s (unsubscribe r s)"
  by (auto simp: grows_def allocated_def unsubscribe_def)

lemma grows_arrays: "grows a s s' \<Longrightarrow> arrays s' a = arrays s a @ added a s s'"
  by (auto simp: grows_def added_def prefix_def)

lemma added_refl: "added a s s = []"
  by (simp add: added_def)

lemma added_trans:
  assumes "grows a s s1" and "grows a s1 s2"
  shows "added a s s2 = added a s s1 @ added a s1 s2"
proof -
  have "arrays s2 a = arrays s a @ added a s s1 @ added a s1 s2"
    using grows_arrays [OF assms(1)] grows_arrays [OF assms(2)] by simp
  then show ?thesis
    by (simp add: added_def [of a s s2])
qed

lemma subscribe_added: "set (added a s (subscribe r s)) \<subseteq> {r}"
  by (simp add: added_def subscribe_def)

lemma unsubscribe_added: "a < fresh s \<Longrightarrow> added a s (unsubscribe r s) = []"
  by (simp add: added_def unsubscribe_def)

lemma perform_grows:
  "a < fresh s \<Longrightarrow> allocated s \<Longrightarrow>
   grows a s (fst (perform acts s)) \<and>
   set (added a s (fst (perform acts s))) \<subseteq> set (subscribed_in acts)"
proof (induction acts s rule: perform.induct)
  case (1 s)
  then show ?case by (simp add: grows_refl added_refl)
next
  case (2 r acts s)
  have step: "grows a s (subscribe r s)"
    using "2.prems" by (rule subscribe_grows)
  then have rest: "grows a (subscribe r s) (fst (perform acts (subscribe r s))) \<and>
      set (added a (subscribe r s) (fst (perform acts (subscribe r s)))) \<subseteq> set (subscribed_in acts)"
    by (intro "2.IH") (simp_all add: grows_def)
  have "added a s (fst (perform acts (subscribe r s))) =
      added a s (subscribe r s) @ added a (subscribe r s) (fst (perform acts (subscribe r s)))"
    using step rest by (intro added_trans) simp_all
  then show ?case
    using step rest subscribe_added [of a s r] by (auto intro: grows_trans)
next
  case (3 r acts s)
  have step: "grows a s (unsubscribe r s)"
    using "3.prems" by (rule unsubscribe_grows)
  then have rest: "grows a (unsubscribe r s) (fst (perform acts (unsubscribe r s))) \<and>
      set (added a (unsubscribe r s) (fst (perform acts (unsubscribe r s)))) \<subseteq>
      set (subscribed_in acts)"
    by (intro "3.IH") (simp_all add: grows_def)
  have "added a s (fst (perform acts (unsubscribe r s))) =
      added a s (unsubscribe r s) @
      added a (unsubscribe r s) (fst (perform acts (unsubscribe r s)))"
    using step rest by (intro added_trans) simp_all
  then show ?case
    using step rest "3.prems"(1) by (auto simp: unsubscribe_added intro: grows_trans)
next
  case (4 e acts s)
  then show ?case by (simp add: grows_refl added_refl)
qed

lemma grows_ignores_output:
  "grows a (s\<lparr>trace := t\<rparr>) s' = grows a s s'"
  "grows a s (s'\<lparr>trace := t\<rparr>) = grows a s s'"
  "grows a (s\<lparr>printed := p\<rparr>) s' = grows a s s'"
  "grows a s (s'\<lparr>printed := p\<rparr>) = grows a s s'"
  by (simp_all add: grows_def allocated_def)

lemma added_ignores_output:
  "added a (s\<lparr>trace := t\<rparr>) s' = added a s s'"
  "added a s (s'\<lparr>trace := t\<rparr>) = added a s s'"
  "added a (s\<lparr>printed := p\<rparr>) s' = added a s s'"
  "added a s (s'\<lparr>printed := p\<rparr>) = added a s s'"
  by (simp_all add: added_def)

lemma update_body_grows:
  "a < fresh s \<Longrightarrow> allocated s \<Longrightarrow>
   grows a s (fst (update_body ob ev d s)) \<and>
   set (added a s (fst (update_body ob ev d s))) \<subseteq> set (subscribed_by ob)"
  by (cases ob)
    (simp_all add: update_body_def perform_grows grows_ignores_output added_ignores_output
      grows_refl added_refl)

lemma update_grows:
  assumes "a < fresh s" and "allocated s"
  shows "grows a s (fst (update objs r ev d s)) \<and>
         set (added a s (fst (update objs r ev d s))) \<subseteq> set (subscribed_by (objs r))"
proof -
  let ?s0 = "s\<lparr>trace := trace s @ [Enter r ev d]\<rparr>"
  have "grows a ?s0 (fst (update_body (objs r) ev d ?s0)) \<and>
      set (added a ?s0 (fst (update_body (objs r) ev d ?s0))) \<subseteq> set (subscribed_by (objs r))"
    using assms by (intro update_body_grows) (simp_all add: allocated_def)
  then show ?thesis
    by (simp add: update_def Let_def grows_ignores_output added_ignores_output)
qed

lemma update_allocated: "allocated s \<Longrightarrow> allocated (fst (update objs r ev d s))"
  using update_grows [of "observers s" s objs r ev d] by (simp add: grows_def allocated_def)

text \<open>
  Whatever the listeners do: when the loop ends, it has notified, in order, elements
  that the array holds at the end, from index \<open>i\<close> on, all of them if it returns; and
  what the array has gained, the notified listeners have subscribed.
\<close>

lemma notify_loop_general:
  "a < fresh s \<Longrightarrow> allocated s \<Longrightarrow> i \<le> length (arrays s a) \<Longrightarrow>
   notify_loop objs n a i ev d s = Some out \<Longrightarrow>
   \<exists>more. trace (state_of out) = trace s @ more \<and> grows a s (state_of out) \<and>
     prefix (recipients more) (drop i (arrays (state_of out) a)) \<and>
     (returned out \<longrightarrow> more = deliveries ev d (drop i (arrays (state_of out) a))) \<and>
     set (added a s (state_of out)) \<subseteq> set (invited objs (recipients more))"
proof (induction n arbitrary: i s)
  case 0
  then show ?case by simp
next
  case (Suc n)
  show ?case
  proof (cases "i < length (arrays s a)")
    case False
    then have out: "out = Returned s" and none: "drop i (arrays s a) = []"
      using Suc.prems by simp_all
    show ?thesis
      using Suc.prems(1,2)
      by (intro exI [of _ "[]"]) (simp add: out none grows_refl added_refl deliveries_Nil)
  next
    case True
    let ?x = "arrays s a ! i"
    let ?s1 = "fst (update objs ?x ev d s)"
    have g1: "grows a s ?s1"
      and a1: "set (added a s ?s1) \<subseteq> set (subscribed_by (objs ?x))"
      using update_grows [OF Suc.prems(1,2), of objs ?x ev d] by simp_all
    show ?thesis
    proof (cases "snd (update objs ?x ev d s)")
      case (Some e)
      then have out: "out = Raised e ?s1"
        using Suc.prems(4) True by simp
      have tr: "trace ?s1 = trace s @ [Enter ?x ev d, Abort ?x e]"
        using Some by (rule update_trace_raised)
      have arr: "arrays ?s1 a = arrays s a @ added a s ?s1"
        using g1 by (rule grows_arrays)
      have "i < length (arrays ?s1 a)" "arrays ?s1 a ! i = ?x"
        using True by (simp_all add: arr nth_append)
      then have "drop i (arrays ?s1 a) = ?x # drop (Suc i) (arrays ?s1 a)"
        by (metis Cons_nth_drop_Suc)
      then show ?thesis
        using g1 a1
        by (intro exI [of _ "[Enter ?x ev d, Abort ?x e]"])
          (simp add: out tr invited_Cons invited_Nil)
    next
      case None
      then have run: "notify_loop objs n a (Suc i) ev d ?s1 = Some out"
        using Suc.prems(4) True by simp
      have len: "Suc i \<le> length (arrays ?s1 a)"
        using g1 True by (auto simp: grows_def dest: prefix_length_le)
      have tr1: "trace ?s1 = trace s @ [Enter ?x ev d, Return ?x]"
        using None by (rule update_trace_returned)
      obtain more1 where t: "trace (state_of out) = trace ?s1 @ more1"
        and g: "grows a ?s1 (state_of out)"
        and p: "prefix (recipients more1) (drop (Suc i) (arrays (state_of out) a))"
        and r: "returned out \<longrightarrow>
          more1 = deliveries ev d (drop (Suc i) (arrays (state_of out) a))"
        and b: "set (added a ?s1 (state_of out)) \<subseteq> set (invited objs (recipients more1))"
        using Suc.IH [of ?s1 "Suc i"] g1 len run by (auto simp: grows_def)
      have g': "grows a s (state_of out)"
        using g1 g by (rule grows_trans)
      have arr: "arrays (state_of out) a = arrays s a @ added a s (state_of out)"
        using g' by (rule grows_arrays)
      have "i < length (arrays (state_of out) a)" "arrays (state_of out) a ! i = ?x"
        using True by (simp_all add: arr nth_append)
      then have dr: "drop i (arrays (state_of out) a) =
          ?x # drop (Suc i) (arrays (state_of out) a)"
        by (metis Cons_nth_drop_Suc)
      have ad: "added a s (state_of out) = added a s ?s1 @ added a ?s1 (state_of out)"
        using g1 g by (rule added_trans)
      show ?thesis
      proof (intro exI [of _ "[Enter ?x ev d, Return ?x] @ more1"] conjI)
        show "trace (state_of out) = trace s @ [Enter ?x ev d, Return ?x] @ more1"
          by (simp add: t tr1)
        show "grows a s (state_of out)"
          by (rule g')
        show "prefix (recipients ([Enter ?x ev d, Return ?x] @ more1))
            (drop i (arrays (state_of out) a))"
          using p by (simp add: dr)
        show "returned out \<longrightarrow> [Enter ?x ev d, Return ?x] @ more1 =
            deliveries ev d (drop i (arrays (state_of out) a))"
          using r by (simp add: dr deliveries_Cons)
        show "set (added a s (state_of out)) \<subseteq>
            set (invited objs (recipients ([Enter ?x ev d, Return ?x] @ more1)))"
          using a1 b by (auto simp: ad invited_Cons)
      qed
    qed
  qed
qed

lemma notify_general:
  assumes "allocated s" and "notify objs n ev d s = Some out"
  shows "\<exists>more extra. trace (state_of out) = trace s @ more \<and>
           prefix (recipients more) (subscribers s @ extra) \<and>
           (returned out \<longrightarrow> more = deliveries ev d (subscribers s @ extra)) \<and>
           set extra \<subseteq> set (invited objs (recipients more)) \<and>
           (distinct (subscribers s) \<longrightarrow> distinct (subscribers s @ extra)) \<and>
           allocated (state_of out)"
proof -
  let ?a = "observers s"
  let ?extra = "added ?a s (state_of out)"
  obtain more where t: "trace (state_of out) = trace s @ more"
    and g: "grows ?a s (state_of out)"
    and p: "prefix (recipients more) (drop 0 (arrays (state_of out) ?a))"
    and r: "returned out \<longrightarrow> more = deliveries ev d (drop 0 (arrays (state_of out) ?a))"
    and b: "set ?extra \<subseteq> set (invited objs (recipients more))"
    using notify_loop_general [of ?a s 0 objs n ev d out] assms
    by (auto simp: allocated_def notify_def)
  have arr: "arrays (state_of out) ?a = subscribers s @ ?extra"
    using grows_arrays [OF g] by (simp add: subscribers_def)
  have "distinct (subscribers s) \<longrightarrow> distinct (subscribers s @ ?extra)"
    using g arr by (simp add: grows_def subscribers_def)
  moreover have "allocated (state_of out)"
    using g by (simp add: grows_def)
  ultimately show ?thesis
    using t p r b by (intro exI [of _ more] exI [of _ ?extra]) (simp add: arr)
qed

lemma broadcast_recipients_general:
  assumes "allocated s" and "broadcast_recipients objs n ev d s = Some rs"
  shows "\<exists>extra. prefix rs (subscribers s @ extra) \<and> set extra \<subseteq> set (invited objs rs) \<and>
           (distinct (subscribers s) \<longrightarrow> distinct (subscribers s @ extra)) \<and>
           (map_option returned (notify objs n ev d s) = Some True \<longrightarrow>
              rs = subscribers s @ extra)"
proof -
  obtain out where out: "notify objs n ev d s = Some out"
    and rs: "rs = recipients (drop (length (trace s)) (trace (state_of out)))"
    using assms(2) by (auto simp: broadcast_recipients_def)
  obtain more extra where t: "trace (state_of out) = trace s @ more"
    and p: "prefix (recipients more) (subscribers s @ extra)"
    and r: "returned out \<longrightarrow> more = deliveries ev d (subscribers s @ extra)"
    and b: "set extra \<subseteq> set (invited objs (recipients more))"
    and d: "distinct (subscribers s) \<longrightarrow> distinct (subscribers s @ extra)"
    using notify_general [OF assms(1) out] by blast
  have "rs = recipients more"
    by (simp add: rs t)
  then show ?thesis
    using p r b d out by (intro exI [of _ extra]) (auto simp: recipients_deliveries)
qed

subsection \<open>When every update is quiet, the loop is the snapshot\<close>

lemma perform_quiet_returns:
  "unsubscribes_only acts \<Longrightarrow>
   snd (perform acts s) = None \<and>
   subscribers (fst (perform acts s)) =
     filter (\<lambda>x. x \<notin> set (unsubscribed_in acts)) (subscribers s)"
proof (induction acts s rule: perform.induct)
  case (3 r acts s)
  then have "snd (perform acts (unsubscribe r s)) = None \<and>
      subscribers (fst (perform acts (unsubscribe r s))) =
        filter (\<lambda>x. x \<notin> set (unsubscribed_in acts)) (subscribers (unsubscribe r s))"
    by simp
  then show ?case
    by (simp add: subscribers_unsubscribe conj_commute)
qed simp_all

lemma perform_quiet_arrays:
  "unsubscribes_only acts \<Longrightarrow> a < fresh s \<Longrightarrow> arrays (fst (perform acts s)) a = arrays s a"
proof (induction acts s rule: perform.induct)
  case (3 r acts s)
  have "a < fresh (unsubscribe r s)"
    using "3.prems"(2) by (simp add: unsubscribe_def)
  then have "arrays (fst (perform acts (unsubscribe r s))) a = arrays (unsubscribe r s) a"
    using "3.prems"(1) by (intro "3.IH") simp_all
  then show ?case
    using "3.prems"(2) by (simp add: unsubscribe_def)
qed simp_all

lemma update_quiet_returns:
  assumes "quiet (objs r)"
  shows "snd (update objs r ev d s) = None \<and>
         subscribers (fst (update objs r ev d s)) =
           filter (\<lambda>x. x \<notin> set (unsubscribed_by (objs r))) (subscribers s)"
proof (cases "objs r")
  case (User name)
  then show ?thesis by (simp add: update_def update_body_def subscribers_def)
next
  case (Other acts)
  let ?s0 = "s\<lparr>trace := trace s @ [Enter r ev d]\<rparr>"
  have "unsubscribes_only acts"
    using assms Other by simp
  then have "snd (perform acts ?s0) = None \<and>
      subscribers (fst (perform acts ?s0)) =
        filter (\<lambda>x. x \<notin> set (unsubscribed_in acts)) (subscribers ?s0)"
    by (rule perform_quiet_returns)
  then show ?thesis
    by (simp add: update_def update_body_def Other subscribers_def Let_def)
qed

lemma update_quiet_arrays:
  assumes "quiet (objs r)" and "a < fresh s"
  shows "arrays (fst (update objs r ev d s)) a = arrays s a"
proof (cases "objs r")
  case (User name)
  then show ?thesis by (simp add: update_def update_body_def)
next
  case (Other acts)
  let ?s0 = "s\<lparr>trace := trace s @ [Enter r ev d]\<rparr>"
  have "unsubscribes_only acts"
    using assms(1) Other by simp
  moreover have "a < fresh ?s0"
    using assms(2) by simp
  ultimately have "arrays (fst (perform acts ?s0)) a = arrays ?s0 a"
    by (rule perform_quiet_arrays)
  then show ?thesis
    by (simp add: update_def update_body_def Other Let_def)
qed

lemma notify_loop_snapshot:
  "list_all (\<lambda>r. quiet (objs r)) xs \<Longrightarrow> arrays s a = xs \<Longrightarrow> a < fresh s \<Longrightarrow>
   allocated s \<Longrightarrow> length xs - i < n \<Longrightarrow>
   notify_loop objs n a i ev d s =
     Some (Returned (fold (\<lambda>r t. fst (update objs r ev d t)) (drop i xs) s))"
proof (induction n arbitrary: i s)
  case 0
  then show ?case by simp
next
  case (Suc n)
  show ?case
  proof (cases "i < length xs")
    case True
    let ?s1 = "fst (update objs (xs ! i) ev d s)"
    have q: "quiet (objs (xs ! i))"
      using Suc.prems(1) True by (simp add: list_all_length)
    have ret: "snd (update objs (xs ! i) ev d s) = None"
      using q by (simp add: update_quiet_returns)
    have kept: "arrays ?s1 a = xs"
      using q Suc.prems(2,3) by (simp add: update_quiet_arrays)
    have g: "grows a s ?s1"
      using update_grows [OF Suc.prems(3,4), of objs "xs ! i" ev d] by simp
    have "notify_loop objs n a (Suc i) ev d ?s1 =
        Some (Returned (fold (\<lambda>r t. fst (update objs r ev d t)) (drop (Suc i) xs) ?s1))"
      using Suc.prems(1) kept g Suc.prems(5) True
      by (intro Suc.IH) (simp_all add: grows_def)
    moreover have "drop i xs = xs ! i # drop (Suc i) xs"
      using True by (simp add: Cons_nth_drop_Suc)
    ultimately show ?thesis
      using True Suc.prems(2) ret by simp
  next
    case False
    then show ?thesis
      using Suc.prems(2) by simp
  qed
qed

lemma notify_snapshot:
  assumes "allocated s" and "list_all (\<lambda>r. quiet (objs r)) (subscribers s)"
    and "length (subscribers s) < n"
  shows "notify objs n ev d s = Some (Returned (snapshot_notify objs ev d s))"
proof -
  have "notify_loop objs n (observers s) 0 ev d s =
      Some (Returned (fold (\<lambda>r t. fst (update objs r ev d t)) (drop 0 (subscribers s)) s))"
  proof (rule notify_loop_snapshot)
    show "list_all (\<lambda>r. quiet (objs r)) (subscribers s)" by (rule assms(2))
    show "arrays s (observers s) = subscribers s" by (simp add: subscribers_def)
    show "observers s < fresh s" using assms(1) by (simp add: allocated_def)
    show "allocated s" by (rule assms(1))
    show "length (subscribers s) - 0 < n" using assms(3) by simp
  qed
  then show ?thesis
    by (simp add: notify_def snapshot_notify_def)
qed

lemma fold_update_trace:
  "list_all (\<lambda>r. quiet (objs r)) rs \<Longrightarrow>
   trace (fold (\<lambda>r t. fst (update objs r ev d t)) rs s) = trace s @ deliveries ev d rs"
proof (induction rs arbitrary: s)
  case Nil
  then show ?case by (simp add: deliveries_Nil)
next
  case (Cons r rs)
  have "snd (update objs r ev d s) = None"
    using Cons.prems by (simp add: update_quiet_returns)
  then have "trace (fst (update objs r ev d s)) = trace s @ [Enter r ev d, Return r]"
    by (rule update_trace_returned)
  then show ?case
    using Cons by (simp add: deliveries_Cons)
qed

lemma snapshot_notify_trace:
  "list_all (\<lambda>r. quiet (objs r)) (subscribers s) \<Longrightarrow>
   trace (snapshot_notify objs ev d s) = trace s @ deliveries ev d (subscribers s)"
  by (simp add: snapshot_notify_def fold_update_trace)

lemma fold_update_subscribers:
  "list_all (\<lambda>r. quiet (objs r)) rs \<Longrightarrow>
   subscribers (fold (\<lambda>r t. fst (update objs r ev d t)) rs s) =
     filter (\<lambda>x. x \<notin> set (cancelled objs rs)) (subscribers s)"
proof (induction rs arbitrary: s)
  case Nil
  then show ?case by (simp add: cancelled_def)
next
  case (Cons r rs)
  let ?s1 = "fst (update objs r ev d s)"
  have "subscribers (fold (\<lambda>r t. fst (update objs r ev d t)) rs ?s1) =
     filter (\<lambda>x. x \<notin> set (cancelled objs rs)) (subscribers ?s1)"
    using Cons.prems by (intro Cons.IH) simp
  moreover have "subscribers ?s1 =
     filter (\<lambda>x. x \<notin> set (unsubscribed_by (objs r))) (subscribers s)"
    using Cons.prems by (simp add: update_quiet_returns)
  moreover have "cancelled objs (r # rs) = unsubscribed_by (objs r) @ cancelled objs rs"
    by (simp add: cancelled_def)
  ultimately show ?case
    by (simp add: conj_commute)
qed

lemma snapshot_notify_subscribers:
  "list_all (\<lambda>r. quiet (objs r)) (subscribers s) \<Longrightarrow>
   subscribers (snapshot_notify objs ev d s) =
     filter (\<lambda>x. x \<notin> set (cancelled objs (subscribers s))) (subscribers s)"
  by (simp add: snapshot_notify_def fold_update_subscribers)

lemma fold_update_allocated:
  "allocated s \<Longrightarrow> allocated (fold (\<lambda>r t. fst (update objs r ev d t)) rs s)"
  by (induction rs arbitrary: s) (simp_all add: update_allocated)

lemma snapshot_notify_allocated:
  "allocated s \<Longrightarrow> allocated (snapshot_notify objs ev d s)"
  by (simp add: snapshot_notify_def fold_update_allocated)

lemma broadcast_recipients_snapshot:
  assumes "allocated s" and "list_all (\<lambda>r. quiet (objs r)) (subscribers s)"
    and "length (subscribers s) < n"
  shows "broadcast_recipients objs n ev d s = Some (subscribers s)"
  using notify_snapshot [OF assms] assms(2)
  by (simp add: broadcast_recipients_def snapshot_notify_trace recipients_deliveries)

text \<open>The next broadcast finds the same conditions, with fewer subscribers.\<close>

lemma snapshot_notify_again:
  assumes "allocated s" and "list_all (\<lambda>r. quiet (objs r)) (subscribers s)"
    and "length (subscribers s) < n"
  shows "allocated (snapshot_notify objs ev d s) \<and>
         list_all (\<lambda>r. quiet (objs r)) (subscribers (snapshot_notify objs ev d s)) \<and>
         length (subscribers (snapshot_notify objs ev d s)) < n \<and>
         set (subscribers (snapshot_notify objs ev d s)) \<subseteq> set (subscribers s)"
proof -
  let ?after = "subscribers (snapshot_notify objs ev d s)"
  have eq: "?after = filter (\<lambda>x. x \<notin> set (cancelled objs (subscribers s))) (subscribers s)"
    using assms(2) by (rule snapshot_notify_subscribers)
  have "length ?after \<le> length (subscribers s)"
    by (simp add: eq)
  moreover have "list_all (\<lambda>r. quiet (objs r)) ?after"
    using assms(2) by (simp add: eq list_all_iff)
  moreover have "set ?after \<subseteq> set (subscribers s)"
    by (simp add: eq)
  ultimately show ?thesis
    using assms(1,3) by (simp add: snapshot_notify_allocated)
qed

lemma notify_all_quiet:
  "allocated s \<Longrightarrow> list_all (\<lambda>r. quiet (objs r)) (subscribers s) \<Longrightarrow>
   length (subscribers s) < n \<Longrightarrow> \<exists>s'. notify_all objs n es s = Some s'"
proof (induction es arbitrary: s)
  case Nil
  then show ?case by simp
next
  case (Cons e es)
  let ?s1 = "snapshot_notify objs (fst e) (snd e) s"
  have run: "notify objs n (fst e) (snd e) s = Some (Returned ?s1)"
    using Cons.prems by (rule notify_snapshot)
  have "allocated ?s1 \<and> list_all (\<lambda>r. quiet (objs r)) (subscribers ?s1) \<and>
      length (subscribers ?s1) < n \<and> set (subscribers ?s1) \<subseteq> set (subscribers s)"
    using Cons.prems by (rule snapshot_notify_again)
  then have "\<exists>s'. notify_all objs n es ?s1 = Some s'"
    by (intro Cons.IH) simp_all
  then show ?case
    by (simp add: run)
qed

subsection \<open>Without a throw, no broadcast raises\<close>




subsection \<open>No listener twice\<close>

lemma perform_distinct:
  "distinct (subscribers s) \<Longrightarrow> distinct (subscribers (fst (perform acts s)))"
  by (induction acts s rule: perform.induct)
    (simp_all add: subscribers_subscribe subscribers_unsubscribe)

lemma update_distinct:
  assumes "distinct (subscribers s)"
  shows "distinct (subscribers (fst (update objs r ev d s)))"
proof -
  let ?s0 = "s\<lparr>trace := trace s @ [Enter r ev d]\<rparr>"
  have start: "distinct (subscribers ?s0)"
    using assms by (simp add: subscribers_def)
  have "distinct (subscribers (fst (update_body (objs r) ev d ?s0)))"
  proof (cases "objs r")
    case (User name)
    then show ?thesis
      using assms by (simp add: update_body_def subscribers_def)
  next
    case (Other acts)
    then show ?thesis
      using start by (simp add: update_body_def perform_distinct)
  qed
  then show ?thesis
    by (simp add: update_def Let_def subscribers_def)
qed

lemma notify_loop_distinct:
  "distinct (subscribers s) \<Longrightarrow> notify_loop objs n a i ev d s = Some out \<Longrightarrow>
   distinct (subscribers (state_of out))"
proof (induction n arbitrary: i s)
  case 0
  then show ?case by simp
next
  case (Suc n)
  have "distinct (subscribers (fst (update objs (arrays s a ! i) ev d s)))"
    using Suc.prems(1) by (rule update_distinct)
  then show ?case
    using Suc.prems Suc.IH by (auto split: if_splits option.splits)
qed

lemma count_list_distinct: "distinct xs \<Longrightarrow> x \<in> set xs \<Longrightarrow> count_list xs x = 1"
  by (induction xs) (auto simp: count_list_0_iff)

lemma count_list_distinct_le: "distinct xs \<Longrightarrow> count_list xs x \<le> 1"
  by (cases "x \<in> set xs") (simp_all add: count_list_distinct count_list_0_iff)

lemma prefix_distinct: "prefix xs ys \<Longrightarrow> distinct ys \<Longrightarrow> distinct xs"
  by (auto simp: prefix_def)

subsection \<open>The same subscribers at another address\<close>

lemma subscribe_same_view:
  "same_view a b s t \<Longrightarrow> same_view a b (subscribe r s) (subscribe r t)"
  by (auto simp: same_view_def subscribe_def subscribers_def allocated_def)

lemma unsubscribe_same_view:
  "same_view a b s t \<Longrightarrow> same_view a b (unsubscribe r s) (unsubscribe r t)"
  by (auto simp: same_view_def unsubscribe_def subscribers_def allocated_def)

lemma perform_same_view:
  "same_view a b s t \<Longrightarrow>
   same_view a b (fst (perform acts s)) (fst (perform acts t)) \<and>
   snd (perform acts s) = snd (perform acts t)"
proof (induction acts arbitrary: s t)
  case Nil
  then show ?case by simp
next
  case (Cons act acts)
  then show ?case
    by (cases act) (simp_all add: subscribe_same_view unsubscribe_same_view)
qed

lemma same_view_output:
  "same_view a b s t \<Longrightarrow>
   same_view a b (s\<lparr>trace := trace s @ es\<rparr>) (t\<lparr>trace := trace t @ es\<rparr>)"
  "same_view a b s t \<Longrightarrow>
   same_view a b (s\<lparr>printed := printed s @ ls\<rparr>) (t\<lparr>printed := printed t @ ls\<rparr>)"
  by (simp_all add: same_view_def subscribers_def allocated_def)

lemma update_body_same_view:
  "same_view a b s t \<Longrightarrow>
   same_view a b (fst (update_body ob ev d s)) (fst (update_body ob ev d t)) \<and>
   snd (update_body ob ev d s) = snd (update_body ob ev d t)"
  by (cases ob) (simp_all add: update_body_def perform_same_view same_view_output)

lemma update_same_view:
  assumes "same_view a b s t"
  shows "same_view a b (fst (update objs r ev d s)) (fst (update objs r ev d t)) \<and>
         snd (update objs r ev d s) = snd (update objs r ev d t)"
proof -
  let ?s0 = "s\<lparr>trace := trace s @ [Enter r ev d]\<rparr>"
  let ?t0 = "t\<lparr>trace := trace t @ [Enter r ev d]\<rparr>"
  have "same_view a b ?s0 ?t0"
    using assms by (rule same_view_output)
  then have body: "same_view a b (fst (update_body (objs r) ev d ?s0))
      (fst (update_body (objs r) ev d ?t0)) \<and>
      snd (update_body (objs r) ev d ?s0) = snd (update_body (objs r) ev d ?t0)"
    by (rule update_body_same_view)
  then show ?thesis
    by (simp add: update_def Let_def same_view_output)
qed

lemma notify_loop_same_view:
  "same_view a b s t \<Longrightarrow>
   rel_option (rel_outcome (same_view a b))
     (notify_loop objs n a i ev d s) (notify_loop objs n b i ev d t)"
proof (induction n arbitrary: i s t)
  case 0
  then show ?case by simp
next
  case (Suc n)
  have eq: "arrays s a = arrays t b"
    using Suc.prems by (simp add: same_view_def)
  show ?case
  proof (cases "i < length (arrays t b)")
    case True
    let ?x = "arrays t b ! i"
    have step: "same_view a b (fst (update objs ?x ev d s)) (fst (update objs ?x ev d t)) \<and>
        snd (update objs ?x ev d s) = snd (update objs ?x ev d t)"
      using Suc.prems by (rule update_same_view)
    show ?thesis
    proof (cases "snd (update objs ?x ev d t)")
      case None
      then show ?thesis
        using True eq step by (simp add: Suc.IH)
    next
      case (Some e)
      then show ?thesis
        using True eq step by simp
    qed
  next
    case False
    then show ?thesis
      using eq Suc.prems by simp
  qed
qed

lemma outcome_same_view_observable:
  "rel_outcome (same_view a b) u v \<Longrightarrow> map_outcome observable u = map_outcome observable v"
  by (cases u; cases v) (simp_all add: same_view_def observable_def)

lemma same_view_observable:
  "rel_option (rel_outcome (same_view a b)) x y \<Longrightarrow>
   map_option (map_outcome observable) x = map_option (map_outcome observable) y"
  by (cases x; cases y) (simp_all add: outcome_same_view_observable)

subsection \<open>A listener that nobody subscribes stays out\<close>

lemma perform_keeps_out:
  "r \<notin> set (subscribed_in acts) \<Longrightarrow> r \<notin> set (subscribers s) \<Longrightarrow>
   r \<notin> set (subscribers (fst (perform acts s)))"
  by (induction acts s rule: perform.induct)
    (simp_all add: subscribers_subscribe subscribers_unsubscribe)

lemma update_keeps_out:
  assumes "r \<notin> set (subscribed_by (objs x))" and "r \<notin> set (subscribers s)"
  shows "r \<notin> set (subscribers (fst (update objs x ev d s)))"
proof -
  let ?s0 = "s\<lparr>trace := trace s @ [Enter x ev d]\<rparr>"
  have start: "r \<notin> set (subscribers ?s0)"
    using assms(2) by (simp add: subscribers_def)
  have "r \<notin> set (subscribers (fst (update_body (objs x) ev d ?s0)))"
  proof (cases "objs x")
    case (User name)
    then show ?thesis
      using assms(2) by (simp add: update_body_def subscribers_def)
  next
    case (Other acts)
    then show ?thesis
      using start assms(1) by (simp add: update_body_def perform_keeps_out)
  qed
  then show ?thesis
    by (simp add: update_def Let_def subscribers_def)
qed

lemma notify_loop_keeps_out:
  "\<forall>x. r \<notin> set (subscribed_by (objs x)) \<Longrightarrow> r \<notin> set (subscribers s) \<Longrightarrow>
   notify_loop objs n a i ev d s = Some out \<Longrightarrow> r \<notin> set (subscribers (state_of out))"
proof (induction n arbitrary: i s)
  case 0
  then show ?case by simp
next
  case (Suc n)
  have "r \<notin> set (subscribers (fst (update objs (arrays s a ! i) ev d s)))"
    using Suc.prems(1,2) by (simp add: update_keeps_out)
  then show ?case
    using Suc.prems Suc.IH by (auto split: if_splits option.splits)
qed

lemma not_invited: "\<forall>x. r \<notin> set (subscribed_by (objs x)) \<Longrightarrow> r \<notin> set (invited objs rs)"
  by (simp add: invited_def)

lemma notify_skips:
  assumes "allocated s" and "\<forall>x. r \<notin> set (subscribed_by (objs x))"
    and "r \<notin> set (subscribers s)" and "notify objs n ev d s = Some out"
  shows "\<exists>more. trace (state_of out) = trace s @ more \<and> r \<notin> set (recipients more) \<and>
           r \<notin> set (subscribers (state_of out)) \<and> allocated (state_of out)"
proof -
  obtain more extra where t: "trace (state_of out) = trace s @ more"
    and p: "prefix (recipients more) (subscribers s @ extra)"
    and b: "set extra \<subseteq> set (invited objs (recipients more))"
    and al: "allocated (state_of out)"
    using notify_general [OF assms(1,4)] by blast
  have "r \<notin> set extra"
    using b not_invited [OF assms(2)] by blast
  then have "r \<notin> set (subscribers s @ extra)"
    using assms(3) by simp
  then have "r \<notin> set (recipients more)"
    using p set_mono_prefix by blast
  moreover have "r \<notin> set (subscribers (state_of out))"
    using assms(2,3,4) unfolding notify_def by (rule notify_loop_keeps_out)
  ultimately show ?thesis
    using t al by blast
qed

lemma notify_all_skips:
  "allocated s \<Longrightarrow> \<forall>x. r \<notin> set (subscribed_by (objs x)) \<Longrightarrow> r \<notin> set (subscribers s) \<Longrightarrow>
   notify_all objs n es s = Some s' \<Longrightarrow>
   \<exists>more. trace s' = trace s @ more \<and> r \<notin> set (recipients more) \<and>
     r \<notin> set (subscribers s')"
proof (induction es arbitrary: s)
  case Nil
  then show ?case by simp
next
  case (Cons e es)
  obtain out where out: "notify objs n (fst e) (snd e) s = Some out"
    and rest: "notify_all objs n es (state_of out) = Some s'"
    using Cons.prems(4) by (auto split: option.splits)
  obtain more1 where t1: "trace (state_of out) = trace s @ more1"
    and r1: "r \<notin> set (recipients more1)"
    and o1: "r \<notin> set (subscribers (state_of out))"
    and al: "allocated (state_of out)"
    using notify_skips [OF Cons.prems(1,2,3) out] by blast
  obtain more2 where t2: "trace s' = trace (state_of out) @ more2"
    and r2: "r \<notin> set (recipients more2)"
    and o2: "r \<notin> set (subscribers s')"
    using Cons.IH [OF al Cons.prems(2) o1 rest] by blast
  have "trace s' = trace s @ (more1 @ more2)"
    by (simp add: t1 t2)
  moreover have "r \<notin> set (recipients (more1 @ more2))"
    using r1 r2 by (simp add: recipients_append)
  ultimately show ?case
    using o2 by blast
qed

subsection \<open>The usage script\<close>

lemmas usage_defs =
  notify_def subscribe_def unsubscribe_def update_def update_body_def subscribers_def
  NotifierSubject_def user_line_def users_def user1_def user2_def user3_def Let_def

lemma usage_script_output:
  "map_option printed
     (case notify users 3 ''new noti'' \<lparr>content = ''Hello''\<rparr>
             (subscribe user2 (subscribe user1 NotifierSubject)) of
        None \<Rightarrow> None
      | Some out \<Rightarrow>
          map_option state_of
            (notify users 3 ''new noti'' \<lparr>content = ''After unsubscribe''\<rparr>
               (unsubscribe user1 (state_of out)))) =
   Some [''[User] Event: new noti, To: Dat, Content: Hello'',
         ''[User] Event: new noti, To: Cuong, Content: Hello'',
         ''[User] Event: new noti, To: Cuong, Content: After unsubscribe'']"
  by (simp add: usage_defs eval_nat_numeral)

subsection \<open>The claims about the subject\<close>

text \<open>
  C1. The listeners that receive a broadcast are exactly those subscribed when the call
  starts; a subscribe or unsubscribe made while the broadcast is iterating, also from
  inside an \<open>update\<close>, neither adds nor removes a recipient of that broadcast. The
  code iterates over the array itself and \<open>subscribe\<close> pushes onto it: with only
  \<open>user1\<close> subscribed, whose \<open>update\<close> subscribes \<open>user2\<close>, the broadcast in progress
  reaches \<open>user2\<close> as well. And the loop has no \<open>try\<close>: with \<open>user1\<close> and \<open>user2\<close>
  subscribed and an \<open>update\<close> of \<open>user1\<close> that throws, the broadcast does not reach
  \<open>user2\<close>.
\<close>

theorem recipients_differ_from_subscribers_at_start:
  "subscribers (subscribe user1 NotifierSubject) = [user1] \<and>
   broadcast_recipients inviting 3 ''new noti'' \<lparr>content = ''Hello''\<rparr>
     (subscribe user1 NotifierSubject) = Some [user1, user2] \<and>
   broadcast_recipients inviting 3 ''new noti'' \<lparr>content = ''Hello''\<rparr>
     (subscribe user1 NotifierSubject) \<noteq> Some (subscribers (subscribe user1 NotifierSubject)) \<and>
   subscribers (subscribe user2 (subscribe user1 NotifierSubject)) = [user1, user2] \<and>
   broadcast_recipients failing 3 ''new noti'' \<lparr>content = ''Hello''\<rparr>
     (subscribe user2 (subscribe user1 NotifierSubject)) = Some [user1]"
  by (simp add: broadcast_recipients_def usage_defs inviting_def failing_def eval_nat_numeral)

text \<open>
  C1, as the code has it. Whatever the listeners do, a broadcast that ends has reached
  listeners subscribed at its start, in their order, and after them only listeners that
  an \<open>update\<close> it has invoked subscribes; if it returns, it has reached every listener
  subscribed at its start, the ones unsubscribed meanwhile among them. When no \<open>update\<close>
  of a subscribed listener subscribes or raises, the broadcast returns and is the
  broadcast over the snapshot: its recipients are exactly the listeners subscribed at
  its start, and the listeners unsubscribed meanwhile are missing from the subscribers,
  and so from the recipients, of the next broadcast.
\<close>

theorem notify_reaches_subscribers_at_start:
  assumes "allocated s"
  shows "(broadcast_recipients objs n ev d s = Some rs \<longrightarrow>
            (\<exists>extra. prefix rs (subscribers s @ extra) \<and>
               set extra \<subseteq> set (invited objs rs) \<and>
               (map_option returned (notify objs n ev d s) = Some True \<longrightarrow>
                  rs = subscribers s @ extra))) \<and>
         (list_all (\<lambda>r. quiet (objs r)) (subscribers s) \<and> length (subscribers s) < n \<longrightarrow>
            notify objs n ev d s = Some (Returned (snapshot_notify objs ev d s)) \<and>
            broadcast_recipients objs n ev d s = Some (subscribers s) \<and>
            subscribers (snapshot_notify objs ev d s) =
              filter (\<lambda>x. x \<notin> set (cancelled objs (subscribers s))) (subscribers s) \<and>
            broadcast_recipients objs n ev2 d2 (snapshot_notify objs ev d s) =
              Some (subscribers (snapshot_notify objs ev d s)))"
proof (intro conjI impI)
  assume "broadcast_recipients objs n ev d s = Some rs"
  then show "\<exists>extra. prefix rs (subscribers s @ extra) \<and>
      set extra \<subseteq> set (invited objs rs) \<and>
      (map_option returned (notify objs n ev d s) = Some True \<longrightarrow> rs = subscribers s @ extra)"
    using broadcast_recipients_general [OF assms] by blast
next
  assume "list_all (\<lambda>r. quiet (objs r)) (subscribers s) \<and> length (subscribers s) < n"
  then have q: "list_all (\<lambda>r. quiet (objs r)) (subscribers s)"
    and l: "length (subscribers s) < n"
    by simp_all
  show "notify objs n ev d s = Some (Returned (snapshot_notify objs ev d s))"
    using assms q l by (rule notify_snapshot)
  show "broadcast_recipients objs n ev d s = Some (subscribers s)"
    using assms q l by (rule broadcast_recipients_snapshot)
  show "subscribers (snapshot_notify objs ev d s) =
      filter (\<lambda>x. x \<notin> set (cancelled objs (subscribers s))) (subscribers s)"
    using q by (rule snapshot_notify_subscribers)
  have "allocated (snapshot_notify objs ev d s) \<and>
      list_all (\<lambda>r. quiet (objs r)) (subscribers (snapshot_notify objs ev d s)) \<and>
      length (subscribers (snapshot_notify objs ev d s)) < n \<and>
      set (subscribers (snapshot_notify objs ev d s)) \<subseteq> set (subscribers s)"
    using assms q l by (rule snapshot_notify_again)
  then show "broadcast_recipients objs n ev2 d2 (snapshot_notify objs ev d s) =
      Some (subscribers (snapshot_notify objs ev d s))"
    by (simp add: broadcast_recipients_snapshot)
qed

theorem notify_reaches_subscribers_at_start_witness:
  "allocated (subscribe user2 (subscribe user1 NotifierSubject)) \<and>
   list_all (\<lambda>r. quiet (dismissing r))
     (subscribers (subscribe user2 (subscribe user1 NotifierSubject))) \<and>
   map_option returned
     (notify dismissing 3 ''new noti'' \<lparr>content = ''Hello''\<rparr>
        (subscribe user2 (subscribe user1 NotifierSubject))) = Some True \<and>
   broadcast_recipients dismissing 3 ''new noti'' \<lparr>content = ''Hello''\<rparr>
     (subscribe user2 (subscribe user1 NotifierSubject)) = Some [user1, user2] \<and>
   subscribers (snapshot_notify dismissing ''new noti'' \<lparr>content = ''Hello''\<rparr>
     (subscribe user2 (subscribe user1 NotifierSubject))) = [user1] \<and>
   broadcast_recipients dismissing 3 ''new noti'' \<lparr>content = ''Again''\<rparr>
     (snapshot_notify dismissing ''new noti'' \<lparr>content = ''Hello''\<rparr>
       (subscribe user2 (subscribe user1 NotifierSubject))) = Some [user1]"
proof -
  let ?s = "subscribe user2 (subscribe user1 NotifierSubject)"
  have al: "allocated ?s"
    by (simp add: subscribe_allocated NotifierSubject_allocated)
  have ne: "user1 \<noteq> user2"
    by (simp add: user1_def user2_def)
  have subs: "subscribers ?s = [user1, user2]"
    using ne by (simp add: subscribers_subscribe NotifierSubject_subscribers)
  have "list_all (\<lambda>r. quiet (dismissing r)) [user1, user2]"
    by (simp add: dismissing_def)
  then have q: "list_all (\<lambda>r. quiet (dismissing r)) (subscribers ?s)"
    by (simp only: subs)
  have gone: "filter (\<lambda>x. x \<notin> set (cancelled dismissing [user1, user2])) [user1, user2] = [user1]"
    using ne by (simp add: cancelled_def dismissing_def)
  show ?thesis
    using al q gone
      notify_reaches_subscribers_at_start [OF al, of dismissing 3 "''new noti''"
        "\<lparr>content = ''Hello''\<rparr>" _ "''new noti''" "\<lparr>content = ''Again''\<rparr>"]
    by (simp add: subs)
qed




text \<open>
  C4. No listener is twice in the subscriber sequence: this holds of a new subject and
  is kept by \<open>subscribe\<close>, by \<open>unsubscribe\<close> and by a broadcast, whatever the listeners
  do in it and however it ends. Subscribing a listener that is present changes nothing,
  so a listener subscribed twice is reached once by a broadcast that returns, and at
  most once by one that raises.
\<close>

theorem subscribers_stay_distinct:
  assumes "distinct (subscribers s)"
  shows "distinct (subscribers NotifierSubject) \<and>
         distinct (subscribers (subscribe r s)) \<and>
         distinct (subscribers (unsubscribe r s)) \<and>
         (notify objs n ev d s = Some out \<longrightarrow> distinct (subscribers (state_of out))) \<and>
         subscribe r (subscribe r s) = subscribe r s \<and>
         (allocated s \<and> notify objs n ev d (subscribe r (subscribe r s)) = Some (Returned s'') \<longrightarrow>
            (\<exists>rs. broadcast_recipients objs n ev d (subscribe r (subscribe r s)) = Some rs \<and>
                   count_list rs r = 1)) \<and>
         (allocated s \<and>
          broadcast_recipients objs n ev d (subscribe r (subscribe r s)) = Some rs' \<longrightarrow>
            count_list rs' r \<le> 1) \<and>
         (allocated s \<and>
          list_all (\<lambda>x. quiet (objs x)) (subscribers (subscribe r s)) \<and>
          length (subscribers (subscribe r s)) < n \<longrightarrow>
            broadcast_recipients objs n ev d (subscribe r (subscribe r s)) =
              Some (subscribers (subscribe r s)) \<and>
            count_list (subscribers (subscribe r s)) r = 1)"
proof -
  let ?t = "subscribe r s"
  have dt: "distinct (subscribers ?t)"
    using assms by (simp add: subscribers_subscribe)
  have mem: "r \<in> set (subscribers ?t)"
    by (simp add: subscribers_subscribe)
  have once: "count_list (subscribers ?t) r = 1"
    using dt mem by (rule count_list_distinct)
  have bound: "\<exists>extra. prefix rs (subscribers ?t @ extra) \<and> distinct (subscribers ?t @ extra) \<and>
      (map_option returned (notify objs n ev d ?t) = Some True \<longrightarrow> rs = subscribers ?t @ extra)"
    if al: "allocated s" and rs: "broadcast_recipients objs n ev d ?t = Some rs" for rs
  proof -
    have "allocated ?t"
      using al by (rule subscribe_allocated)
    then show ?thesis
      using broadcast_recipients_general [of ?t objs n ev d rs] rs dt by blast
  qed
  have "distinct (subscribers (state_of out))" if "notify objs n ev d s = Some out"
    using assms that unfolding notify_def by (rule notify_loop_distinct)
  moreover have "\<exists>rs. broadcast_recipients objs n ev d ?t = Some rs \<and> count_list rs r = 1"
    if al: "allocated s" and run: "notify objs n ev d ?t = Some (Returned s'')"
  proof -
    obtain rs where rs: "broadcast_recipients objs n ev d ?t = Some rs"
      using run by (simp add: broadcast_recipients_def)
    obtain extra where "distinct (subscribers ?t @ extra)" "rs = subscribers ?t @ extra"
      using bound [OF al rs] run by auto
    then have "count_list rs r = 1"
      using mem by (intro count_list_distinct) simp_all
    with rs show ?thesis by blast
  qed
  moreover have "count_list rs' r \<le> 1"
    if al: "allocated s" and rs: "broadcast_recipients objs n ev d ?t = Some rs'"
  proof -
    obtain extra where "prefix rs' (subscribers ?t @ extra)" "distinct (subscribers ?t @ extra)"
      using bound [OF al rs] by blast
    then have "distinct rs'"
      by (rule prefix_distinct)
    then show ?thesis
      by (rule count_list_distinct_le)
  qed
  moreover have "broadcast_recipients objs n ev d ?t = Some (subscribers ?t)"
    if "allocated s" and "list_all (\<lambda>x. quiet (objs x)) (subscribers ?t)"
      and "length (subscribers ?t) < n"
    using that by (intro broadcast_recipients_snapshot subscribe_allocated)
  ultimately show ?thesis
    using dt once assms
    by (simp add: subscribe_twice subscribers_unsubscribe NotifierSubject_subscribers)
qed

theorem subscribers_stay_distinct_witness:
  "distinct (subscribers (subscribe user1 NotifierSubject)) \<and>
   allocated (subscribe user1 NotifierSubject) \<and>
   subscribers (subscribe user2 (subscribe user2 (subscribe user1 NotifierSubject))) =
     [user1, user2] \<and>
   list_all (\<lambda>x. quiet (users x))
     (subscribers (subscribe user2 (subscribe user1 NotifierSubject))) \<and>
   broadcast_recipients users 3 ''new noti'' \<lparr>content = ''Hello''\<rparr>
     (subscribe user2 (subscribe user2 (subscribe user1 NotifierSubject))) =
     Some [user1, user2] \<and>
   count_list [user1, user2] user2 = 1"
proof -
  let ?s = "subscribe user1 NotifierSubject"
  have subs: "subscribers ?s = [user1]"
    by (simp add: subscribers_subscribe NotifierSubject_subscribers)
  have d: "distinct (subscribers ?s)"
    by (simp add: subs)
  have al: "allocated ?s"
    by (simp add: subscribe_allocated NotifierSubject_allocated)
  have ne: "user1 \<noteq> user2"
    by (simp add: user1_def user2_def)
  have subs2: "subscribers (subscribe user2 ?s) = [user1, user2]"
    using ne by (simp add: subscribers_subscribe NotifierSubject_subscribers)
  have "list_all (\<lambda>x. quiet (users x)) [user1, user2]"
    by (simp add: users_def)
  then have q: "list_all (\<lambda>x. quiet (users x)) (subscribers (subscribe user2 ?s))"
    by (simp only: subs2)
  show ?thesis
    using d al q
      subscribers_stay_distinct [OF d, of user2 users 3 "''new noti''"
        "\<lparr>content = ''Hello''\<rparr>"]
    by (simp add: subs2 subscribe_twice)
qed

text \<open>
  C7. \<open>unsubscribe\<close> takes every occurrence of the listener out of the subscriber
  sequence and keeps the other listeners, in their order; it leaves the sequence as it
  is when the listener is absent. Afterwards, as long as no \<open>update\<close> subscribes this listener
  again, no broadcast that ends, by returning or by raising, has a delivery to it,
  whatever else the listeners do, and after any number of broadcasts it is still not
  subscribed. When the \<open>update\<close> of the listeners that remain subscribes nobody and
  does not raise, the broadcasts return, and the next one reaches exactly the others.
\<close>

theorem unsubscribe_removes_listener:
  "subscribers (unsubscribe r s) = filter (\<lambda>x. x \<noteq> r) (subscribers s) \<and>
   (r \<notin> set (subscribers s) \<longrightarrow> subscribers (unsubscribe r s) = subscribers s) \<and>
   ((\<forall>x. r \<notin> set (subscribed_by (objs x))) \<and>
    broadcast_recipients objs n ev d (unsubscribe r s) = Some rs \<longrightarrow> r \<notin> set rs) \<and>
   ((\<forall>x. r \<notin> set (subscribed_by (objs x))) \<and>
    notify_all objs n es (unsubscribe r s) = Some s' \<longrightarrow>
      (\<exists>more. trace s' = trace s @ more \<and> r \<notin> set (recipients more)) \<and>
      r \<notin> set (subscribers s')) \<and>
   (list_all (\<lambda>x. quiet (objs x)) (filter (\<lambda>x. x \<noteq> r) (subscribers s)) \<and>
    length (filter (\<lambda>x. x \<noteq> r) (subscribers s)) < n \<longrightarrow>
      broadcast_recipients objs n ev d (unsubscribe r s) =
        Some (filter (\<lambda>x. x \<noteq> r) (subscribers s)) \<and>
      (\<exists>s''. notify_all objs n es (unsubscribe r s) = Some s''))"
proof -
  let ?t = "unsubscribe r s"
  have subs: "subscribers ?t = filter (\<lambda>x. x \<noteq> r) (subscribers s)"
    by (rule subscribers_unsubscribe)
  have al: "allocated ?t"
    by (rule unsubscribe_allocated)
  have out: "r \<notin> set (subscribers ?t)"
    by (simp add: subs)
  have absent: "subscribers ?t = subscribers s" if "r \<notin> set (subscribers s)"
    using that by (auto simp: subs filter_id_conv)
  have one: "r \<notin> set rs"
    if nobody: "\<forall>x. r \<notin> set (subscribed_by (objs x))"
      and rs: "broadcast_recipients objs n ev d ?t = Some rs"
  proof -
    obtain res where run: "notify objs n ev d ?t = Some res"
      and eq: "rs = recipients (drop (length (trace ?t)) (trace (state_of res)))"
      using rs by (auto simp: broadcast_recipients_def)
    obtain more where "trace (state_of res) = trace ?t @ more" "r \<notin> set (recipients more)"
      using notify_skips [OF al nobody out run] by blast
    then show ?thesis
      by (simp add: eq)
  qed
  have many: "(\<exists>more. trace s' = trace s @ more \<and> r \<notin> set (recipients more)) \<and>
      r \<notin> set (subscribers s')"
    if nobody: "\<forall>x. r \<notin> set (subscribed_by (objs x))"
      and run: "notify_all objs n es ?t = Some s'"
    using notify_all_skips [OF al nobody out run] by (auto simp: unsubscribe_trace)
  have total: "broadcast_recipients objs n ev d ?t = Some (filter (\<lambda>x. x \<noteq> r) (subscribers s)) \<and>
      (\<exists>s''. notify_all objs n es ?t = Some s'')"
    if q: "list_all (\<lambda>x. quiet (objs x)) (filter (\<lambda>x. x \<noteq> r) (subscribers s))"
      and l: "length (filter (\<lambda>x. x \<noteq> r) (subscribers s)) < n"
  proof -
    have q': "list_all (\<lambda>x. quiet (objs x)) (subscribers ?t)"
      using q by (simp only: subs)
    have l': "length (subscribers ?t) < n"
      using l by (simp only: subs)
    have "broadcast_recipients objs n ev d ?t = Some (subscribers ?t)"
      using al q' l' by (rule broadcast_recipients_snapshot)
    moreover have "\<exists>s''. notify_all objs n es ?t = Some s''"
      using al q' l' by (rule notify_all_quiet)
    ultimately show ?thesis
      by (simp only: subs)
  qed
  show ?thesis
    using subs absent one many total by blast
qed

theorem unsubscribe_removes_listener_witness:
  "(\<forall>x. user3 \<notin> set (subscribed_by (inviting x))) \<and>
   subscribers (unsubscribe user3 (subscribe user3 (subscribe user1 NotifierSubject))) =
     [user1] \<and>
   broadcast_recipients inviting 3 ''new noti'' \<lparr>content = ''Hello''\<rparr>
     (unsubscribe user3 (subscribe user3 (subscribe user1 NotifierSubject))) =
     Some [user1, user2] \<and>
   user3 \<notin> set [user1, user2] \<and>
   list_all (\<lambda>x. quiet (users x))
     (filter (\<lambda>x. x \<noteq> user1) (subscribers (subscribe user2 (subscribe user1 NotifierSubject)))) \<and>
   subscribers (unsubscribe user1 (subscribe user2 (subscribe user1 NotifierSubject))) =
     [user2] \<and>
   broadcast_recipients users 3 ''new noti'' \<lparr>content = ''After unsubscribe''\<rparr>
     (unsubscribe user1 (subscribe user2 (subscribe user1 NotifierSubject))) = Some [user2]"
proof -
  let ?s = "subscribe user2 (subscribe user1 NotifierSubject)"
  let ?u = "subscribe user3 (subscribe user1 NotifierSubject)"
  have ne: "user1 \<noteq> user2" "user1 \<noteq> user3" "user2 \<noteq> user3"
    by (simp_all add: user1_def user2_def user3_def)
  have nobody: "\<forall>x. user3 \<notin> set (subscribed_by (inviting x))"
    using ne by (simp add: inviting_def)
  have run: "broadcast_recipients inviting 3 ''new noti'' \<lparr>content = ''Hello''\<rparr>
      (unsubscribe user3 ?u) = Some [user1, user2]"
    by (simp add: broadcast_recipients_def usage_defs inviting_def eval_nat_numeral)
  have subs: "subscribers ?s = [user1, user2]" "subscribers ?u = [user1, user3]"
    using ne by (simp_all add: subscribers_subscribe NotifierSubject_subscribers)
  have rest: "filter (\<lambda>x. x \<noteq> user1) [user1, user2] = [user2]"
    "filter (\<lambda>x. x \<noteq> user3) [user1, user3] = [user1]"
    using ne by auto
  have "list_all (\<lambda>x. quiet (users x)) [user2]"
    by (simp add: users_def)
  then have q: "list_all (\<lambda>x. quiet (users x)) (filter (\<lambda>x. x \<noteq> user1) (subscribers ?s))"
    by (simp only: subs rest)
  show ?thesis
    using nobody run q rest
      unsubscribe_removes_listener [of user3 ?u inviting 3 "''new noti''"
        "\<lparr>content = ''Hello''\<rparr>" "[user1, user2]" "[]"]
      unsubscribe_removes_listener [of user1 ?s users 3 "''new noti''"
        "\<lparr>content = ''After unsubscribe''\<rparr>" _ "[]"]
    by (simp add: subs)
qed

text \<open>
  C10. For a listener that is not subscribed, \<open>subscribe\<close> followed by \<open>unsubscribe\<close>
  gives back the subscriber sequence as it was, and a later broadcast cannot tell the
  difference: with any listeners and any number of steps it ends on the one subject
  if and only if it ends on the other, in the same way (returning, or raising the
  same exception), with the same subscribers, the same output and the same deliveries.
\<close>

theorem subscribe_unsubscribe_roundtrip:
  assumes "allocated s" and "r \<notin> set (subscribers s)"
  shows "subscribers (unsubscribe r (subscribe r s)) = subscribers s \<and>
         map_option (map_outcome observable)
           (notify objs n ev d (unsubscribe r (subscribe r s))) =
         map_option (map_outcome observable) (notify objs n ev d s)"
proof -
  let ?t = "unsubscribe r (subscribe r s)"
  have subs: "subscribers ?t = subscribers s"
    using assms(2) by (rule subscribe_unsubscribe_subscribers)
  have "same_view (observers ?t) (observers s) ?t s"
    unfolding same_view_def
  proof (intro conjI)
    show "arrays ?t (observers ?t) = arrays s (observers s)"
      using subs by (simp add: subscribers_def)
    show "(observers ?t = observers ?t) = (observers s = observers s)" by simp
    show "observers ?t < fresh ?t" by (simp add: unsubscribe_def)
    show "observers s < fresh s" using assms(1) by (simp add: allocated_def)
    show "allocated ?t" by (rule unsubscribe_allocated)
    show "allocated s" by (rule assms(1))
    show "subscribers ?t = subscribers s" by (rule subs)
    show "printed ?t = printed s" by (simp add: unsubscribe_def subscribe_def)
    show "trace ?t = trace s" by (simp add: unsubscribe_def subscribe_def)
  qed
  then have "rel_option (rel_outcome (same_view (observers ?t) (observers s)))
      (notify_loop objs n (observers ?t) 0 ev d ?t) (notify_loop objs n (observers s) 0 ev d s)"
    by (rule notify_loop_same_view)
  then have "map_option (map_outcome observable) (notify objs n ev d ?t) =
      map_option (map_outcome observable) (notify objs n ev d s)"
    unfolding notify_def by (rule same_view_observable)
  with subs show ?thesis by simp
qed

theorem subscribe_unsubscribe_roundtrip_witness:
  "allocated (subscribe user1 NotifierSubject) \<and>
   user2 \<notin> set (subscribers (subscribe user1 NotifierSubject)) \<and>
   subscribers (unsubscribe user2 (subscribe user2 (subscribe user1 NotifierSubject))) =
     [user1] \<and>
   map_option (map_outcome observable)
     (notify users 2 ''new noti'' \<lparr>content = ''Hello''\<rparr>
        (unsubscribe user2 (subscribe user2 (subscribe user1 NotifierSubject)))) =
   Some (Returned ([user1], [''[User] Event: new noti, To: Dat, Content: Hello''],
         [Enter user1 ''new noti'' \<lparr>content = ''Hello''\<rparr>, Return user1]))"
proof -
  let ?s = "subscribe user1 NotifierSubject"
  have al: "allocated ?s"
    by (simp add: subscribe_allocated NotifierSubject_allocated)
  have subs: "subscribers ?s = [user1]"
    by (simp add: subscribers_subscribe NotifierSubject_subscribers)
  have "user2 \<notin> set [user1]"
    by (simp add: user1_def user2_def)
  then have out: "user2 \<notin> set (subscribers ?s)"
    by (simp add: subs)
  have plain: "map_option (map_outcome observable)
      (notify users 2 ''new noti'' \<lparr>content = ''Hello''\<rparr> ?s) =
      Some (Returned ([user1], [''[User] Event: new noti, To: Dat, Content: Hello''],
            [Enter user1 ''new noti'' \<lparr>content = ''Hello''\<rparr>, Return user1]))"
    by (simp add: observable_def usage_defs eval_nat_numeral)
  show ?thesis
    using al out plain
      subscribe_unsubscribe_roundtrip [OF al out, of users 2 "''new noti''"
        "\<lparr>content = ''Hello''\<rparr>"]
    by (simp add: subs)
qed

end
